theory Spec2Isabelle
  imports Complex_Main
begin

section \<open>Timing attack simulation: the embedding\<close>

text \<open>
  The development embeds \<^verbatim>\<open>group-op-timing-attack/extra/timing-attack.py\<close>.
  Python integers are \<open>int\<close>; Python floats are idealised as \<open>real\<close> (rounding of
  IEEE doubles is not modelled); every exception the script can raise is a value of
  \<open>error\<close>, returned as \<open>Inl\<close>.
\<close>

datatype error = KeyError | ValueError | ZeroDivisionError | IndexError

subsection \<open>The numpy generator\<close>

text \<open>
  \<^verbatim>\<open>np.random\<close> is a library, so its generator is a parameter: a state type \<open>'g\<close>
  and three functions. \<open>rng_seed\<close> is the state that \<^verbatim>\<open>np.random.seed(s)\<close> installs
  (the seed determines the whole state), \<open>rng_gauss\<close> draws one standard normal deviate
  and \<open>rng_rand\<close> one uniform deviate of \<open>[0, 1)\<close>, both returning the advanced state.
\<close>

record 'g np_random =
  rng_seed :: "nat \<Rightarrow> 'g"
  rng_gauss :: "'g \<Rightarrow> real \<times> 'g"
  rng_rand :: "'g \<Rightarrow> real \<times> 'g"

text \<open>\<^verbatim>\<open>np.random.seed(s)\<close>: a seed outside \<open>0 .. 2**32 - 1\<close> raises ValueError.\<close>

definition np_seed :: "'g np_random \<Rightarrow> int \<Rightarrow> error + 'g" where
  "np_seed R s = (if 0 \<le> s \<and> s < 2 ^ 32 then Inr (rng_seed R (nat s)) else Inl ValueError)"

text \<open>
  \<^verbatim>\<open>np.random.normal(loc, scale)\<close>: a negative scale raises ValueError, otherwise the
  sample is \<open>loc + scale * z\<close> for one standard normal deviate \<open>z\<close>.
\<close>

definition np_normal :: "'g np_random \<Rightarrow> real \<Rightarrow> real \<Rightarrow> 'g \<Rightarrow> error + real \<times> 'g" where
  "np_normal R loc scale g =
     (if scale < 0 then Inl ValueError
      else (case rng_gauss R g of (z, g') \<Rightarrow> Inr (loc + scale * z, g')))"

subsection \<open>Devices\<close>

text \<open>The table \<^verbatim>\<open>primes\<close>, keyed by key length.\<close>

definition primes :: "int \<rightharpoonup> int" where
  "primes = [8 \<mapsto> 61,
             16 \<mapsto> 53759,
             32 \<mapsto> 2675797811,
             64 \<mapsto> 8642890157798231327,
             128 \<mapsto> 249018405283997733407297959207515566297]"

text \<open>
  \<^verbatim>\<open>self.group_op\<close> is a bound method; the two methods it can name are the
  constructors of \<open>variant\<close>.
\<close>

datatype variant = DoubleAndAdd | SquareAndMul

record device =
  p :: int
  keylen :: int
  mu :: real
  sigma :: real
  group_op :: variant

text \<open>\<^verbatim>\<open>Device.__init__\<close>: the lookup \<^verbatim>\<open>primes[keylen]\<close> is its first statement.\<close>

definition Device_init :: "int \<Rightarrow> real \<Rightarrow> real \<Rightarrow> error + device" where
  "Device_init k m s =
     (case primes k of
        None \<Rightarrow> Inl KeyError
      | Some q \<Rightarrow> Inr \<lparr>p = q, keylen = k, mu = m, sigma = s, group_op = DoubleAndAdd\<rparr>)"

subsection \<open>The group operation and its timing\<close>

text \<open>
  \<^verbatim>\<open>double_and_add\<close> and \<open>square_and_mul\<close> are the same loop but for the two
  updates of \<^verbatim>\<open>res\<close>: \<open>fixed_step\<close> is the update every iteration makes
  (\<^verbatim>\<open>res * 2\<close>, \<^verbatim>\<open>res * res\<close>) and \<open>cond_step\<close> the one under \<^verbatim>\<open>if d[i] == 1\<close>
  (\<^verbatim>\<open>res + m\<close>, \<^verbatim>\<open>res * m\<close>), both before the reduction \<^verbatim>\<open>% self.p\<close>.
\<close>

fun fixed_step :: "variant \<Rightarrow> int \<Rightarrow> int" where
  "fixed_step DoubleAndAdd res = res * 2"
| "fixed_step SquareAndMul res = res * res"

fun cond_step :: "variant \<Rightarrow> int \<Rightarrow> int \<Rightarrow> int" where
  "cond_step DoubleAndAdd res m = res + m"
| "cond_step SquareAndMul res m = res * m"

text \<open>
  The loop \<^verbatim>\<open>for i in range(len(d))\<close> over the state \<open>(res, delay, g)\<close>, with \<open>g\<close> the
  state of the numpy generator. \<^verbatim>\<open>% self.p\<close> raises ZeroDivisionError for a zero
  modulus; for any other modulus Python's \<^verbatim>\<open>%\<close> on integers is \<open>mod\<close>.
\<close>

fun group_op_loop ::
  "variant \<Rightarrow> 'g np_random \<Rightarrow> 'a device_scheme \<Rightarrow> int \<Rightarrow> int list \<Rightarrow>
     int \<times> real \<times> 'g \<Rightarrow> error + int \<times> real \<times> 'g" where
  "group_op_loop v R dev m [] (res, delay, g) = Inr (res, delay, g)"
| "group_op_loop v R dev m (b # bs) (res, delay, g) =
     (if p dev = 0 then Inl ZeroDivisionError
      else let res = fixed_step v res mod p dev in
        case np_normal R (mu dev) (sigma dev) g of
          Inl e \<Rightarrow> Inl e
        | Inr (x, g) \<Rightarrow>
            let delay = delay + x in
            if b = 1 then
              let res = cond_step v res m mod p dev in
              (case np_seed R (res mod 2 ^ 32) of
                 Inl e \<Rightarrow> Inl e
               | Inr g \<Rightarrow>
                   (case np_normal R (mu dev) (sigma dev) g of
                      Inl e \<Rightarrow> Inl e
                    | Inr (y, g) \<Rightarrow> group_op_loop v R dev m bs (res, delay + y, g)))
            else group_op_loop v R dev m bs (res, delay, g))"

text \<open>
  The method body around the loop: \<^verbatim>\<open>res = 1\<close>, \<^verbatim>\<open>delay = 0\<close>, the reseeding with
  \<^verbatim>\<open>m % 2**32\<close>, the loop, \<^verbatim>\<open>return delay\<close>. The argument \<open>g0\<close> is the generator
  state at call entry; the result carries the state at return.
\<close>

definition elapsed ::
  "variant \<Rightarrow> 'g np_random \<Rightarrow> 'a device_scheme \<Rightarrow> int \<Rightarrow> int list \<Rightarrow> 'g \<Rightarrow> error + real \<times> 'g" where
  "elapsed v R dev m d g0 =
     (case np_seed R (m mod 2 ^ 32) of
        Inl e \<Rightarrow> Inl e
      | Inr g \<Rightarrow>
          (case group_op_loop v R dev m d (1, 0, g) of
             Inl e \<Rightarrow> Inl e
           | Inr (res, delay, g') \<Rightarrow> Inr (delay, g')))"

definition double_and_add ::
  "'g np_random \<Rightarrow> 'a device_scheme \<Rightarrow> int \<Rightarrow> int list \<Rightarrow> 'g \<Rightarrow> error + real \<times> 'g" where
  "double_and_add = elapsed DoubleAndAdd"

definition square_and_mul ::
  "'g np_random \<Rightarrow> 'a device_scheme \<Rightarrow> int \<Rightarrow> int list \<Rightarrow> 'g \<Rightarrow> error + real \<times> 'g" where
  "square_and_mul = elapsed SquareAndMul"

text \<open>The call \<^verbatim>\<open>self.group_op(m, d)\<close>.\<close>

definition call_group_op ::
  "'g np_random \<Rightarrow> 'a device_scheme \<Rightarrow> int \<Rightarrow> int list \<Rightarrow> 'g \<Rightarrow> error + real \<times> 'g" where
  "call_group_op R dev m d g =
     (case group_op dev of
        DoubleAndAdd \<Rightarrow> double_and_add R dev m d g
      | SquareAndMul \<Rightarrow> square_and_mul R dev m d g)"

text \<open>\<^verbatim>\<open>AttackerDevice.sign\<close>.\<close>

definition AttackerDevice_sign ::
  "'g np_random \<Rightarrow> device \<Rightarrow> int \<Rightarrow> int list \<Rightarrow> 'g \<Rightarrow> error + real \<times> 'g" where
  "AttackerDevice_sign R dev c d g = call_group_op R dev c d g"

text \<open>
  The same loop, instrumented: the fourth component collects every sample that
  \<^verbatim>\<open>np.random.normal\<close> returns, in the order drawn. Nothing reads it.
\<close>

fun group_op_samples ::
  "variant \<Rightarrow> 'g np_random \<Rightarrow> 'a device_scheme \<Rightarrow> int \<Rightarrow> int list \<Rightarrow>
     int \<times> real \<times> 'g \<times> real list \<Rightarrow> error + int \<times> real \<times> 'g \<times> real list" where
  "group_op_samples v R dev m [] (res, delay, g, tr) = Inr (res, delay, g, tr)"
| "group_op_samples v R dev m (b # bs) (res, delay, g, tr) =
     (if p dev = 0 then Inl ZeroDivisionError
      else let res = fixed_step v res mod p dev in
        case np_normal R (mu dev) (sigma dev) g of
          Inl e \<Rightarrow> Inl e
        | Inr (x, g) \<Rightarrow>
            let delay = delay + x; tr = tr @ [x] in
            if b = 1 then
              let res = cond_step v res m mod p dev in
              (case np_seed R (res mod 2 ^ 32) of
                 Inl e \<Rightarrow> Inl e
               | Inr g \<Rightarrow>
                   (case np_normal R (mu dev) (sigma dev) g of
                      Inl e \<Rightarrow> Inl e
                    | Inr (y, g) \<Rightarrow>
                        group_op_samples v R dev m bs (res, delay + y, g, tr @ [y])))
            else group_op_samples v R dev m bs (res, delay, g, tr))"

text \<open>The samples one call of the group operation draws (none when it raises).\<close>

definition samples ::
  "variant \<Rightarrow> 'g np_random \<Rightarrow> 'a device_scheme \<Rightarrow> int \<Rightarrow> int list \<Rightarrow> real list" where
  "samples v R dev m d =
     (case np_seed R (m mod 2 ^ 32) of
        Inl e \<Rightarrow> []
      | Inr g \<Rightarrow>
          (case group_op_samples v R dev m d (1, 0, g, []) of
             Inl e \<Rightarrow> []
           | Inr (res, delay, g', tr) \<Rightarrow> tr))"

text \<open>The number of one bits of an exponent vector: the entries with \<^verbatim>\<open>d[i] == 1\<close>.\<close>

definition popcount :: "int list \<Rightarrow> nat" where
  "popcount d = length (filter (\<lambda>b. b = 1) d)"

subsection \<open>The victim device\<close>

record victim_device = device +
  secret :: "int list"

text \<open>
  The comprehension \<^verbatim>\<open>[int(np.random.rand() <= 0.5) for i in range(n)]\<close>: \<open>n\<close> draws,
  the first draw giving the first element.
\<close>

fun rand_bits :: "'g np_random \<Rightarrow> nat \<Rightarrow> 'g \<Rightarrow> int list \<times> 'g" where
  "rand_bits R 0 g = ([], g)"
| "rand_bits R (Suc n) g =
     (case rng_rand R g of (u, g1) \<Rightarrow>
        (case rand_bits R n g1 of (bs, g2) \<Rightarrow>
           ((if u \<le> 0.5 then 1 else 0) # bs, g2)))"

text \<open>
  \<^verbatim>\<open>VictimDevice.__init__\<close>: the base constructor, the reseeding with the secret seed,
  then the secret. \<^verbatim>\<open>range(self.keylen - 1)\<close> is empty for \<open>keylen \<le> 1\<close>, which is
  what \<open>nat\<close> gives. \<open>g0\<close> is the generator state at entry.
\<close>

definition VictimDevice_init ::
  "'g np_random \<Rightarrow> int \<Rightarrow> real \<Rightarrow> real \<Rightarrow> int \<Rightarrow> 'g \<Rightarrow> error + victim_device \<times> 'g" where
  "VictimDevice_init R k m s secret_seed g0 =
     (case Device_init k m s of
        Inl e \<Rightarrow> Inl e
      | Inr dev \<Rightarrow>
          (case np_seed R secret_seed of
             Inl e \<Rightarrow> Inl e
           | Inr g \<Rightarrow>
               (case rand_bits R (nat (keylen dev - 1)) g of
                  (bits, g') \<Rightarrow>
                    Inr (\<lparr>p = p dev, keylen = keylen dev, mu = mu dev, sigma = sigma dev,
                          group_op = group_op dev, secret = [1] @ bits\<rparr>, g'))))"

text \<open>\<^verbatim>\<open>VictimDevice.sign\<close>.\<close>

definition VictimDevice_sign ::
  "'g np_random \<Rightarrow> victim_device \<Rightarrow> int \<Rightarrow> 'g \<Rightarrow> error + real \<times> 'g" where
  "VictimDevice_sign R dev c g = call_group_op R dev c (secret dev) g"

text \<open>
  \<^verbatim>\<open>VictimDevice.check\<close> prints one of three lines; the model returns which one:
  \<open>LOW\<close> for ``Less than 75\% of key bits recovered.'', \<open>PARTIAL\<close> for ``At least 75\%,
  but less than 100\% of key bits recovered.'', \<open>FULL\<close> for ``100\% of key bits
  recovered.''. Reading \<^verbatim>\<open>self.secret[i]\<close> or \<^verbatim>\<open>d[i]\<close> past the end raises IndexError,
  and the division raises ZeroDivisionError for \<open>keylen = 0\<close>.
\<close>

datatype verdict = LOW | PARTIAL | FULL

definition matches :: "int list \<Rightarrow> int list \<Rightarrow> nat \<Rightarrow> nat" where
  "matches xs ys n = sum_list (map (\<lambda>i. if xs ! i = ys ! i then 1 else 0) [0..<n])"

definition check :: "victim_device \<Rightarrow> int list \<Rightarrow> error + verdict" where
  "check dev d =
     (if length (secret dev) < nat (keylen dev) \<or> length d < nat (keylen dev) then Inl IndexError
      else if keylen dev = 0 then Inl ZeroDivisionError
      else let f = real (matches (secret dev) d (nat (keylen dev))) / real_of_int (keylen dev) in
        if f < 0.75 then Inr LOW
        else if f < 1 then Inr PARTIAL
        else Inr FULL)"

subsection \<open>The recovery loop of main\<close>

text \<open>
  The script's global state: the numpy generator, the generator of Python's \<^verbatim>\<open>random\<close>
  module (a second parameter, its \<^verbatim>\<open>randint\<close> a function on a state type \<open>'h\<close>),
  and \<open>queries\<close>, a log of the argument pairs of every \<^verbatim>\<open>attacker.sign(c, recovered)\<close>
  call in the order made. The log is only appended to and never read.
\<close>

record ('g, 'h) world =
  np :: 'g
  py :: 'h
  queries :: "(int \<times> int list) list"

record stats =
  sum0 :: real
  sum0_square :: real
  sum1 :: real
  sum1_square :: real

text \<open>The assignment \<^verbatim>\<open>xs[i] = v\<close>: IndexError past the end.\<close>

definition list_set :: "'a list \<Rightarrow> nat \<Rightarrow> 'a \<Rightarrow> error + 'a list" where
  "list_set xs i v = (if i < length xs then Inr (xs[i := v]) else Inl IndexError)"

text \<open>The body of \<^verbatim>\<open>for j in range (N)\<close>, for the bit position \<open>i\<close>.\<close>

definition trial ::
  "'g np_random \<Rightarrow> (int \<Rightarrow> int \<Rightarrow> 'h \<Rightarrow> int \<times> 'h) \<Rightarrow> victim_device \<Rightarrow> device \<Rightarrow> int \<Rightarrow> nat \<Rightarrow>
     stats \<times> int list \<times> ('g, 'h) world \<Rightarrow> error + stats \<times> int list \<times> ('g, 'h) world" where
  "trial R randint victim attacker kl i = (\<lambda>(st, recovered, w).
     case randint 1 (2 ^ nat kl) (py w) of (c, h) \<Rightarrow>
     (case VictimDevice_sign R victim c (np w) of
        Inl e \<Rightarrow> Inl e
      | Inr (t_vic, g) \<Rightarrow>
     (case list_set recovered i 0 of
        Inl e \<Rightarrow> Inl e
      | Inr recovered0 \<Rightarrow>
     (case AttackerDevice_sign R attacker c recovered0 g of
        Inl e \<Rightarrow> Inl e
      | Inr (t_att0, g) \<Rightarrow>
     (case list_set recovered0 i 1 of
        Inl e \<Rightarrow> Inl e
      | Inr recovered1 \<Rightarrow>
     (case AttackerDevice_sign R attacker c recovered1 g of
        Inl e \<Rightarrow> Inl e
      | Inr (t_att1, g) \<Rightarrow>
          Inr (\<lparr>sum0 = sum0 st + (t_vic - t_att0),
                sum0_square = sum0_square st + (t_vic - t_att0)\<^sup>2,
                sum1 = sum1 st + (t_vic - t_att1),
                sum1_square = sum1_square st + (t_vic - t_att1)\<^sup>2\<rparr>,
               recovered1,
               \<lparr>np = g, py = h,
                queries = queries w @ [(c, recovered0), (c, recovered1)]\<rparr>)))))))"

text \<open>\<^verbatim>\<open>for j in range (N)\<close>: the body, \<open>n\<close> times.\<close>

fun trials ::
  "'g np_random \<Rightarrow> (int \<Rightarrow> int \<Rightarrow> 'h \<Rightarrow> int \<times> 'h) \<Rightarrow> victim_device \<Rightarrow> device \<Rightarrow> int \<Rightarrow> nat \<Rightarrow> nat \<Rightarrow>
     stats \<times> int list \<times> ('g, 'h) world \<Rightarrow> error + stats \<times> int list \<times> ('g, 'h) world" where
  "trials R randint victim attacker kl i 0 s = Inr s"
| "trials R randint victim attacker kl i (Suc n) s =
     (case trial R randint victim attacker kl i s of
        Inl e \<Rightarrow> Inl e
      | Inr s' \<Rightarrow> trials R randint victim attacker kl i n s')"

text \<open>
  The decision after the trials (the lines from \<^verbatim>\<open>var0 = ...\<close> to the \<^verbatim>\<open>if\<close>):
  \<^verbatim>\<open>/N\<close> raises ZeroDivisionError for \<open>N = 0\<close>.
\<close>

definition decide :: "nat \<Rightarrow> nat \<Rightarrow> stats \<Rightarrow> int list \<Rightarrow> error + int list" where
  "decide N i st recovered =
     (if N = 0 then Inl ZeroDivisionError
      else let var0 = sum0_square st / real N - (sum0 st / real N)\<^sup>2;
               var1 = sum1_square st / real N - (sum1 st / real N)\<^sup>2
        in if var0 < var1 then list_set recovered i 0 else list_set recovered i 1)"

text \<open>The body of \<^verbatim>\<open>for i in range(0, keylen)\<close>.\<close>

definition round_i ::
  "'g np_random \<Rightarrow> (int \<Rightarrow> int \<Rightarrow> 'h \<Rightarrow> int \<times> 'h) \<Rightarrow> victim_device \<Rightarrow> device \<Rightarrow> nat \<Rightarrow> int \<Rightarrow> nat \<Rightarrow>
     int list \<times> ('g, 'h) world \<Rightarrow> error + int list \<times> ('g, 'h) world" where
  "round_i R randint victim attacker N kl i = (\<lambda>(recovered, w).
     case trials R randint victim attacker kl i N
            (\<lparr>sum0 = 0, sum0_square = 0, sum1 = 0, sum1_square = 0\<rparr>, recovered @ [0], w) of
       Inl e \<Rightarrow> Inl e
     | Inr (st, recovered', w') \<Rightarrow>
         (case decide N i st recovered' of
            Inl e \<Rightarrow> Inl e
          | Inr recovered'' \<Rightarrow> Inr (recovered'', w')))"

text \<open>\<^verbatim>\<open>for i in range(0, keylen)\<close>, over the list of the positions still to run.\<close>

fun main_loop ::
  "'g np_random \<Rightarrow> (int \<Rightarrow> int \<Rightarrow> 'h \<Rightarrow> int \<times> 'h) \<Rightarrow> victim_device \<Rightarrow> device \<Rightarrow> nat \<Rightarrow> int \<Rightarrow> nat list \<Rightarrow>
     int list \<times> ('g, 'h) world \<Rightarrow> error + int list \<times> ('g, 'h) world" where
  "main_loop R randint victim attacker N kl [] s = Inr s"
| "main_loop R randint victim attacker N kl (i # is) s =
     (case round_i R randint victim attacker N kl i s of
        Inl e \<Rightarrow> Inl e
      | Inr s' \<Rightarrow> main_loop R randint victim attacker N kl is s')"

text \<open>
  \<^verbatim>\<open>main\<close> with its local constants \<open>N\<close>, \<open>keylen\<close>, \<open>mu\<close>, \<open>sigma\<close> as arguments:
  the seed, the two constructions (\<^verbatim>\<open>AttackerDevice\<close> inherits \<^verbatim>\<open>Device.__init__\<close>),
  the loop from \<^verbatim>\<open>recovered = []\<close>, and \<^verbatim>\<open>victim.check(recovered)\<close>.
\<close>

definition main_body ::
  "'g np_random \<Rightarrow> (int \<Rightarrow> int \<Rightarrow> 'h \<Rightarrow> int \<times> 'h) \<Rightarrow> nat \<Rightarrow> int \<Rightarrow> real \<Rightarrow> real \<Rightarrow>
     ('g, 'h) world \<Rightarrow> error + int list \<times> verdict \<times> ('g, 'h) world" where
  "main_body R randint N kl m s w =
     (case randint 1 4294967295 (py w) of (seed, h) \<Rightarrow>
      (case VictimDevice_init R kl m s seed (np w) of
         Inl e \<Rightarrow> Inl e
       | Inr (victim, g) \<Rightarrow>
      (case Device_init kl m s of
         Inl e \<Rightarrow> Inl e
       | Inr attacker \<Rightarrow>
      (case main_loop R randint victim attacker N kl [0..<nat kl]
              ([], \<lparr>np = g, py = h, queries = queries w\<rparr>) of
         Inl e \<Rightarrow> Inl e
       | Inr (recovered, w') \<Rightarrow>
      (case check victim recovered of
         Inl e \<Rightarrow> Inl e
       | Inr verdict \<Rightarrow> Inr (recovered, verdict, w'))))))"

definition main ::
  "'g np_random \<Rightarrow> (int \<Rightarrow> int \<Rightarrow> 'h \<Rightarrow> int \<times> 'h) \<Rightarrow> ('g, 'h) world \<Rightarrow>
     error + int list \<times> verdict \<times> ('g, 'h) world" where
  "main R randint w = main_body R randint 4000 64 1000 50 w"

text \<open>
  The log one round of the loop is expected to write, given the bits \<open>pre\<close> finalized
  before the round and the challenges \<open>cs\<close> of its trials: for each challenge, \<open>pre\<close>
  followed by 0, then \<open>pre\<close> followed by 1.
\<close>

definition round_queries :: "int list \<Rightarrow> int list \<Rightarrow> (int \<times> int list) list" where
  "round_queries pre cs = concat (map (\<lambda>c. [(c, pre @ [0]), (c, pre @ [1])]) cs)"

subsection \<open>A small generator for concrete runs\<close>

text \<open>
  A linear congruential generator on \<open>nat\<close> stands in for both libraries wherever a
  theorem is instantiated at a concrete input: its deviates are the integers \<open>-3 .. 3\<close>,
  its uniform draws the eighths of \<open>[0, 1)\<close>.
\<close>

definition lcg_next :: "nat \<Rightarrow> nat" where
  "lcg_next g = (5 * g + 3) mod 16"

definition lcg :: "nat np_random" where
  "lcg = \<lparr>rng_seed = (\<lambda>s. s mod 16),
          rng_gauss = (\<lambda>g. (real (g mod 7) - 3, lcg_next g)),
          rng_rand = (\<lambda>g. (real (g mod 8) / 8, lcg_next g))\<rparr>"

definition lcg_randint :: "int \<Rightarrow> int \<Rightarrow> nat \<Rightarrow> int \<times> nat" where
  "lcg_randint a b h = (a + int h mod (b - a + 1), lcg_next h)"

text \<open>A device as \<^verbatim>\<open>Device(8, 1000, 50)\<close> constructs it.\<close>

definition example_device :: device where
  "example_device = \<lparr>p = 61, keylen = 8, mu = 1000, sigma = 50, group_op = DoubleAndAdd\<rparr>"

text \<open>
  A victim device of key length 8 with the secret \<open>[1,0,1,1,0,0,1,0]\<close>.
\<close>

definition example_victim :: victim_device where
  "example_victim = \<lparr>p = 61, keylen = 8, mu = 1000, sigma = 50, group_op = DoubleAndAdd,
                      secret = [1, 0, 1, 1, 0, 0, 1, 0]\<rparr>"

text \<open>A start state of the script: both generators at 0, no query made yet.\<close>

definition example_world :: "(nat, nat) world" where
  "example_world = \<lparr>np = 0, py = 0, queries = []\<rparr>"

section \<open>Properties of the group operation\<close>

subsection \<open>The library calls\<close>

lemma np_seed_mod: "np_seed R (x mod 2 ^ 32) = Inr (rng_seed R (nat (x mod 2 ^ 32)))"
  by (simp add: np_seed_def)

lemma np_seed_mod_numeral:
  "np_seed R (x mod 4294967296) = Inr (rng_seed R (nat (x mod 4294967296)))"
  using np_seed_mod [of R x] by simp

lemma np_normal_ok:
  "0 \<le> s \<Longrightarrow> np_normal R l s g = Inr (l + s * fst (rng_gauss R g), snd (rng_gauss R g))"
  by (simp add: np_normal_def split: prod.splits)

lemma np_normal_err: "s < 0 \<Longrightarrow> np_normal R l s g = Inl ValueError"
  by (simp add: np_normal_def)

lemma group_op_samples_erase:
  "(case group_op_samples v R dev m d (res, delay, g, tr) of
        Inl e \<Rightarrow> Inl e
      | Inr (r, dl, g', tr') \<Rightarrow> Inr (r, dl, g')) = group_op_loop v R dev m d (res, delay, g)"
proof (induction d arbitrary: res delay g tr)
  case Nil
  show ?case by simp
next
  case (Cons b bs)
  show ?case
  proof (cases "np_normal R (mu dev) (sigma dev) g")
    case (Inl e)
    then show ?thesis by (simp add: Let_def)
  next
    case (Inr xg)
    obtain x g1 where xg: "xg = (x, g1)" by (cases xg)
    define res2 where "res2 = cond_step v (fixed_step v res mod p dev) m mod p dev"
    show ?thesis
    proof (cases "np_normal R (mu dev) (sigma dev) (rng_seed R (nat (res2 mod 4294967296)))")
      case (Inl e)
      then show ?thesis using Inr xg
        by (simp add: Let_def np_seed_mod_numeral Cons.IH res2_def)
    next
      case yg: (Inr yg)
      obtain y g2 where "yg = (y, g2)" by (cases yg)
      then show ?thesis using Inr xg yg
        by (simp add: Let_def np_seed_mod_numeral Cons.IH res2_def)
    qed
  qed
qed

lemma group_op_samples_append:
  "group_op_samples v R dev m (xs @ ys) st =
     (case group_op_samples v R dev m xs st of
        Inl e \<Rightarrow> Inl e
      | Inr st' \<Rightarrow> group_op_samples v R dev m ys st')"
proof (induction xs arbitrary: st)
  case Nil
  show ?case by (cases st) simp
next
  case (Cons b bs)
  obtain res delay g tr where st: "st = (res, delay, g, tr)" by (cases st) auto
  show ?case unfolding st
    by (simp add: Let_def np_seed_mod_numeral Cons.IH split: sum.splits prod.splits)
qed

lemma group_op_samples_ok:
  assumes "p dev \<noteq> 0" "0 \<le> sigma dev"
  shows "\<exists>r dl g' new. group_op_samples v R dev m d (res, delay, g, tr) = Inr (r, dl, g', tr @ new)
       \<and> length new = length d + popcount d \<and> dl = delay + sum_list new"
proof (induction d arbitrary: res delay g tr)
  case Nil
  show ?case by (simp add: popcount_def)
next
  case (Cons b bs)
  show ?case
  proof (cases "b = 1")
    case True
    define res1 where "res1 = fixed_step v res mod p dev"
    define x where "x = mu dev + sigma dev * fst (rng_gauss R g)"
    define res2 where "res2 = cond_step v res1 m mod p dev"
    define g2 where "g2 = rng_seed R (nat (res2 mod 2 ^ 32))"
    define y where "y = mu dev + sigma dev * fst (rng_gauss R g2)"
    from Cons.IH [of res2 "delay + x + y" "snd (rng_gauss R g2)" "(tr @ [x]) @ [y]"]
    obtain r dl g' new where
      run: "group_op_samples v R dev m bs (res2, delay + x + y, snd (rng_gauss R g2), (tr @ [x]) @ [y])
            = Inr (r, dl, g', ((tr @ [x]) @ [y]) @ new)"
      and len: "length new = length bs + popcount bs"
      and dl: "dl = delay + x + y + sum_list new"
      by blast
    have "group_op_samples v R dev m (b # bs) (res, delay, g, tr) = Inr (r, dl, g', tr @ ([x, y] @ new))"
      using assms True run
      by (simp add: Let_def np_seed_mod_numeral np_normal_ok res1_def x_def res2_def g2_def y_def)
    moreover have "length ([x, y] @ new) = length (b # bs) + popcount (b # bs)"
      using True len by (simp add: popcount_def)
    moreover have "dl = delay + sum_list ([x, y] @ new)"
      using dl by simp
    ultimately show ?thesis by blast
  next
    case False
    define res1 where "res1 = fixed_step v res mod p dev"
    define x where "x = mu dev + sigma dev * fst (rng_gauss R g)"
    from Cons.IH [of res1 "delay + x" "snd (rng_gauss R g)" "tr @ [x]"]
    obtain r dl g' new where
      run: "group_op_samples v R dev m bs (res1, delay + x, snd (rng_gauss R g), tr @ [x])
            = Inr (r, dl, g', (tr @ [x]) @ new)"
      and len: "length new = length bs + popcount bs"
      and dl: "dl = delay + x + sum_list new"
      by blast
    have "group_op_samples v R dev m (b # bs) (res, delay, g, tr) = Inr (r, dl, g', tr @ ([x] @ new))"
      using assms False run
      by (simp add: Let_def np_normal_ok res1_def x_def)
    moreover have "length ([x] @ new) = length (b # bs) + popcount (b # bs)"
      using False len by (simp add: popcount_def)
    moreover have "dl = delay + sum_list ([x] @ new)"
      using dl by simp
    ultimately show ?thesis by blast
  qed
qed


lemma group_op_loop_ok:
  assumes "p dev \<noteq> 0" "0 \<le> sigma dev"
  shows "\<exists>r g' new. group_op_loop v R dev m d (res, delay, g) = Inr (r, delay + sum_list new, g')
       \<and> group_op_samples v R dev m d (res, delay, g, tr) = Inr (r, delay + sum_list new, g', tr @ new)
       \<and> length new = length d + popcount d"
proof -
  from group_op_samples_ok [OF assms, of v R m d res delay g tr]
  obtain r dl g' new where
    run: "group_op_samples v R dev m d (res, delay, g, tr) = Inr (r, dl, g', tr @ new)"
    and len: "length new = length d + popcount d" and dl: "dl = delay + sum_list new"
    by blast
  have "group_op_loop v R dev m d (res, delay, g) = Inr (r, dl, g')"
    using group_op_samples_erase [of v R dev m d res delay g tr] run by simp
  with run len dl show ?thesis by blast
qed

lemma elapsed_samples:
  assumes "p dev \<noteq> 0" "0 \<le> sigma dev"
  shows "\<exists>g'. elapsed v R dev m d g0 = Inr (sum_list (samples v R dev m d), g')"
    and "length (samples v R dev m d) = length d + popcount d"
proof -
  from group_op_loop_ok [OF assms, of v R m d 1 0 "rng_seed R (nat (m mod 4294967296))" "[]"]
  obtain r g' new where
    "group_op_loop v R dev m d (1, 0, rng_seed R (nat (m mod 4294967296))) = Inr (r, sum_list new, g')"
    "group_op_samples v R dev m d (1, 0, rng_seed R (nat (m mod 4294967296)), []) = Inr (r, sum_list new, g', new)"
    "length new = length d + popcount d"
    by auto
  then show "\<exists>g'. elapsed v R dev m d g0 = Inr (sum_list (samples v R dev m d), g')"
    and "length (samples v R dev m d) = length d + popcount d"
    by (simp_all add: elapsed_def samples_def np_seed_mod_numeral)
qed


lemma samples_append:
  assumes "p dev \<noteq> 0" "0 \<le> sigma dev"
  shows "\<exists>rest. samples v R dev m (xs @ ys) = samples v R dev m xs @ rest"
proof -
  define g0 where "g0 = rng_seed R (nat (m mod 4294967296))"
  from group_op_loop_ok [OF assms, of v R m xs 1 0 g0 "[]"]
  obtain r g1 new1 where
    run1: "group_op_samples v R dev m xs (1, 0, g0, []) = Inr (r, sum_list new1, g1, new1)"
    by auto
  from group_op_loop_ok [OF assms, of v R m ys r "sum_list new1" g1 new1]
  obtain r2 g2 new2 where
    run2: "group_op_samples v R dev m ys (r, sum_list new1, g1, new1)
            = Inr (r2, sum_list new1 + sum_list new2, g2, new1 @ new2)"
    by auto
  have "group_op_samples v R dev m (xs @ ys) (1, 0, g0, [])
          = Inr (r2, sum_list new1 + sum_list new2, g2, new1 @ new2)"
    using run1 run2 by (simp add: group_op_samples_append)
  with run1 have "samples v R dev m (xs @ ys) = samples v R dev m xs @ new2"
    by (simp add: samples_def np_seed_mod_numeral g0_def)
  then show ?thesis ..
qed

lemma samples_example:
  "samples DoubleAndAdd lcg example_device 5 [1, 0, 1] = [1100, 850, 1150, 900, 900]"
  by code_simp

subsection \<open>Construction, the secret and the verdict\<close>

lemma primes_dom: "primes k \<noteq> None \<longleftrightarrow> k \<in> {8, 16, 32, 64, 128}"
  by (simp add: primes_def)

lemma primes_nonzero: "primes k = Some q \<Longrightarrow> q \<noteq> 0"
  by (auto simp: primes_def split: if_splits)

lemma Device_init_ok:
  "Device_init k m s = Inr dev \<Longrightarrow>
     primes k = Some (p dev) \<and> keylen dev = k \<and> mu dev = m \<and> sigma dev = s
     \<and> group_op dev = DoubleAndAdd"
  by (auto simp: Device_init_def split: option.splits)

lemma rand_bits_Suc:
  "fst (rand_bits R (Suc n) g) =
     (if fst (rng_rand R g) \<le> 0.5 then 1 else 0) # fst (rand_bits R n (snd (rng_rand R g)))"
  by (simp split: prod.splits)

lemma rand_bits_length: "length (fst (rand_bits R n g)) = n"
  by (induction n arbitrary: g) (simp_all add: rand_bits_Suc del: rand_bits.simps(2))

lemma rand_bits_set: "set (fst (rand_bits R n g)) \<subseteq> {0, 1}"
  by (induction n arbitrary: g) (simp_all add: rand_bits_Suc del: rand_bits.simps(2))

lemma matches_le: "matches xs ys n \<le> n"
  by (induction n) (auto simp: matches_def)

lemma matches_example: "matches (secret example_victim) [1, 0, 1, 1, 0, 0, 0, 1] 8 = 6"
  by code_simp

subsection \<open>The recovery loop\<close>

lemma call_group_op_ok:
  assumes "p dev \<noteq> 0" "0 \<le> sigma dev"
  shows "\<exists>t g'. call_group_op R dev c d g = Inr (t, g')"
proof (cases "group_op dev")
  case DoubleAndAdd
  then show ?thesis
    using elapsed_samples(1) [OF assms, of DoubleAndAdd R c d g]
    by (auto simp: call_group_op_def double_and_add_def)
next
  case SquareAndMul
  then show ?thesis
    using elapsed_samples(1) [OF assms, of SquareAndMul R c d g]
    by (auto simp: call_group_op_def square_and_mul_def)
qed

lemma trial_ok:
  assumes "p victim \<noteq> 0" "0 \<le> sigma victim" "p attacker \<noteq> 0" "0 \<le> sigma attacker"
    and "i < length rec"
  shows "\<exists>st' c g' h'. trial R randint victim attacker kl i (st, rec, w)
           = Inr (st', rec[i := 1],
                  \<lparr>np = g', py = h',
                   queries = queries w @ [(c, rec[i := 0]), (c, rec[i := 1])]\<rparr>)"
proof -
  obtain c h where r: "randint 1 (2 ^ nat kl) (py w) = (c, h)"
    by (cases "randint 1 (2 ^ nat kl) (py w)")
  obtain t_vic g1 where v: "VictimDevice_sign R victim c (np w) = Inr (t_vic, g1)"
    using call_group_op_ok [OF assms(1,2), of R c "secret victim" "np w"]
    unfolding VictimDevice_sign_def by blast
  have l0: "list_set rec i 0 = Inr (rec[i := 0])"
    using assms(5) by (simp add: list_set_def)
  obtain t0 g2 where a0: "AttackerDevice_sign R attacker c (rec[i := 0]) g1 = Inr (t0, g2)"
    using call_group_op_ok [OF assms(3,4), of R c "rec[i := 0]" g1]
    unfolding AttackerDevice_sign_def by blast
  have l1: "list_set (rec[i := 0]) i 1 = Inr (rec[i := 1])"
    using assms(5) by (simp add: list_set_def)
  obtain t1 g3 where a1: "AttackerDevice_sign R attacker c (rec[i := 1]) g2 = Inr (t1, g3)"
    using call_group_op_ok [OF assms(3,4), of R c "rec[i := 1]" g2]
    unfolding AttackerDevice_sign_def by blast
  show ?thesis
    by (simp add: trial_def r v l0 a0 l1 a1)
qed

lemma trials_ok:
  assumes "p victim \<noteq> 0" "0 \<le> sigma victim" "p attacker \<noteq> 0" "0 \<le> sigma attacker"
    and "i < length rec"
  shows "\<exists>st' w' cs. trials R randint victim attacker kl i n (st, rec, w)
           = Inr (st', (if n = 0 then rec else rec[i := 1]), w')
         \<and> length cs = n
         \<and> queries w' = queries w @ concat (map (\<lambda>c. [(c, rec[i := 0]), (c, rec[i := 1])]) cs)"
  using assms(5)
proof (induction n arbitrary: st rec w)
  case 0
  show ?case by simp
next
  case (Suc n)
  from trial_ok [OF assms(1-4) Suc.prems, of R randint kl st w]
  obtain st1 c g1 h1 where
    t: "trial R randint victim attacker kl i (st, rec, w)
          = Inr (st1, rec[i := 1],
                 \<lparr>np = g1, py = h1, queries = queries w @ [(c, rec[i := 0]), (c, rec[i := 1])]\<rparr>)"
    by blast
  define w1 where
    "w1 = \<lparr>np = g1, py = h1, queries = queries w @ [(c, rec[i := 0]), (c, rec[i := 1])]\<rparr>"
  have len: "i < length (rec[i := 1])" using Suc.prems by simp
  from Suc.IH [OF len, of st1 w1]
  obtain st' w' cs where
    run: "trials R randint victim attacker kl i n (st1, rec[i := 1], w1)
           = Inr (st', (if n = 0 then rec[i := 1] else rec[i := 1, i := 1]), w')"
    and cs: "length cs = n"
    and q: "queries w' = queries w1
              @ concat (map (\<lambda>c. [(c, rec[i := 1, i := 0]), (c, rec[i := 1, i := 1])]) cs)"
    by blast
  have "trials R randint victim attacker kl i (Suc n) (st, rec, w)
          = Inr (st', (if Suc n = 0 then rec else rec[i := 1]), w')"
    using t run by (simp add: w1_def split: if_splits)
  moreover have "length (c # cs) = Suc n" using cs by simp
  moreover have "queries w' = queries w
      @ concat (map (\<lambda>c. [(c, rec[i := 0]), (c, rec[i := 1])]) (c # cs))"
    using q by (simp add: w1_def)
  ultimately show ?case by blast
qed

lemma decide_bit:
  assumes "0 < N" "i < length rec"
  shows "decide N i st rec =
     Inr (rec[i := (if sum0_square st / real N - (sum0 st / real N)\<^sup>2
                        < sum1_square st / real N - (sum1 st / real N)\<^sup>2 then 0 else 1)])"
  using assms by (simp add: decide_def list_set_def Let_def)

lemma round_i_ok:
  assumes "p victim \<noteq> 0" "0 \<le> sigma victim" "p attacker \<noteq> 0" "0 \<le> sigma attacker"
    and "0 < N" and "length rec = i"
  shows "\<exists>st w' cs.
           trials R randint victim attacker kl i N
             (\<lparr>sum0 = 0, sum0_square = 0, sum1 = 0, sum1_square = 0\<rparr>, rec @ [0], w)
             = Inr (st, rec @ [1], w')
         \<and> round_i R randint victim attacker N kl i (rec, w)
             = Inr (rec @ [if sum0_square st / real N - (sum0 st / real N)\<^sup>2
                               < sum1_square st / real N - (sum1 st / real N)\<^sup>2 then 0 else 1], w')
         \<and> length cs = N
         \<and> queries w' = queries w @ round_queries rec cs"
proof -
  have len: "i < length (rec @ [0])" using assms(6) by simp
  have u0: "(rec @ [0])[i := 0] = rec @ [0]" and u1: "(rec @ [0])[i := 1] = rec @ [1]"
    using assms(6) by auto
  from trials_ok [OF assms(1-4) len, of R randint kl N
      "\<lparr>sum0 = 0, sum0_square = 0, sum1 = 0, sum1_square = 0\<rparr>" w]
  obtain st w' cs where
    run: "trials R randint victim attacker kl i N
            (\<lparr>sum0 = 0, sum0_square = 0, sum1 = 0, sum1_square = 0\<rparr>, rec @ [0], w)
          = Inr (st, rec @ [1], w')"
    and cs: "length cs = N"
    and q: "queries w' = queries w @ round_queries rec cs"
    using assms(5) by (auto simp: u0 u1 round_queries_def)
  have len1: "i < length (rec @ [1])" using assms(6) by simp
  have u: "(rec @ [1])[i := b] = rec @ [b]" for b
    using assms(6) by auto
  have "round_i R randint victim attacker N kl i (rec, w)
          = Inr (rec @ [if sum0_square st / real N - (sum0 st / real N)\<^sup>2
                            < sum1_square st / real N - (sum1 st / real N)\<^sup>2 then 0 else 1], w')"
    by (simp add: round_i_def run decide_bit [OF assms(5) len1] u)
  with run cs q show ?thesis by blast
qed

lemma main_loop_append:
  "main_loop R randint victim attacker N kl (xs @ ys) s =
     (case main_loop R randint victim attacker N kl xs s of
        Inl e \<Rightarrow> Inl e
      | Inr s' \<Rightarrow> main_loop R randint victim attacker N kl ys s')"
  by (induction xs arbitrary: s) (auto split: sum.splits)

lemma main_loop_queries:
  assumes "p victim \<noteq> 0" "0 \<le> sigma victim" "p attacker \<noteq> 0" "0 \<le> sigma attacker"
    and "0 < N"
  shows "\<exists>rec w' qss. main_loop R randint victim attacker N kl [0..<n] ([], w) = Inr (rec, w')
           \<and> length rec = n \<and> set rec \<subseteq> {0, 1}
           \<and> length qss = n
           \<and> queries w' = queries w @ concat qss
           \<and> (\<forall>i<n. \<exists>cs. length cs = N \<and> qss ! i = round_queries (take i rec) cs)"
proof (induction n)
  case 0
  show ?case by simp
next
  case (Suc n)
  then obtain rec w1 qss where
    run: "main_loop R randint victim attacker N kl [0..<n] ([], w) = Inr (rec, w1)"
    and len: "length rec = n" and bits: "set rec \<subseteq> {0, 1}"
    and lq: "length qss = n"
    and q: "queries w1 = queries w @ concat qss"
    and blocks: "\<forall>i<n. \<exists>cs. length cs = N \<and> qss ! i = round_queries (take i rec) cs"
    by blast
  from round_i_ok [OF assms len, of R randint kl w1]
  obtain st :: stats and w' cs where
    r0: "round_i R randint victim attacker N kl n (rec, w1)
          = Inr (rec @ [if sum0_square st / real N - (sum0 st / real N)\<^sup>2
                            < sum1_square st / real N - (sum1 st / real N)\<^sup>2 then 0 else 1], w')"
    and cs: "length cs = N"
    and q': "queries w' = queries w1 @ round_queries rec cs"
    by blast
  define b :: int where
    "b = (if sum0_square st / real N - (sum0 st / real N)\<^sup>2
             < sum1_square st / real N - (sum1 st / real N)\<^sup>2 then 0 else 1)"
  have r: "round_i R randint victim attacker N kl n (rec, w1) = Inr (rec @ [b], w')"
    using r0 by (simp add: b_def)
  have b: "b = 0 \<or> b = 1" by (simp add: b_def)
  have "main_loop R randint victim attacker N kl [0..<Suc n] ([], w) = Inr (rec @ [b], w')"
    using run r by (simp add: main_loop_append)
  moreover have "length (rec @ [b]) = Suc n" using len by simp
  moreover have "set (rec @ [b]) \<subseteq> {0, 1}" using bits b by auto
  moreover have "length (qss @ [round_queries rec cs]) = Suc n" using lq by simp
  moreover have "queries w' = queries w @ concat (qss @ [round_queries rec cs])"
    using q q' by simp
  moreover have "\<forall>i<Suc n. \<exists>cs'. length cs' = N
      \<and> (qss @ [round_queries rec cs]) ! i = round_queries (take i (rec @ [b])) cs'"
  proof (intro allI impI)
    fix i assume "i < Suc n"
    show "\<exists>cs'. length cs' = N
      \<and> (qss @ [round_queries rec cs]) ! i = round_queries (take i (rec @ [b])) cs'"
    proof (cases "i < n")
      case True
      then show ?thesis using blocks lq len by (simp add: nth_append)
    next
      case False
      with \<open>i < Suc n\<close> have "i = n" by simp
      then show ?thesis using cs lq len by (auto simp: nth_append)
    qed
  qed
  ultimately show ?case by blast
qed

lemma example_victim_valid: "p example_victim \<noteq> 0" "0 \<le> sigma example_victim"
  by (simp_all add: example_victim_def)

lemma example_device_valid: "p example_device \<noteq> 0" "0 \<le> sigma example_device"
  by (simp_all add: example_device_def)

lemma round_queries_length: "length (round_queries pre cs) = 2 * length cs"
  by (induction cs) (simp_all add: round_queries_def)

lemma round_queries_vectors: "q \<in> set (round_queries pre cs) \<Longrightarrow> length (snd q) = Suc (length pre)"
  by (auto simp: round_queries_def)

lemma group_op_loop_keylen:
  "group_op_loop v R (dev\<lparr>keylen := k\<rparr>) m d st = group_op_loop v R dev m d st"
proof (induction d arbitrary: st)
  case Nil
  show ?case by (cases st) simp
next
  case (Cons b bs)
  obtain res delay g where st: "st = (res, delay, g)" by (cases st)
  show ?case unfolding st
    by (simp add: Cons.IH Let_def cong: sum.case_cong prod.case_cong if_cong)
qed

lemma call_group_op_elapsed:
  "call_group_op R dev m d g = elapsed (group_op dev) R dev m d g"
  by (simp add: call_group_op_def double_and_add_def square_and_mul_def split: variant.splits)


lemma Device_init_valid: "Device_init k m s = Inr dev \<Longrightarrow> p dev \<noteq> 0"
  using Device_init_ok [of k m s dev] primes_nonzero [of k "p dev"] by simp

lemma round_queries_nth:
  "j < length cs \<Longrightarrow>
     round_queries pre cs ! (2 * j) = (cs ! j, pre @ [0])
   \<and> round_queries pre cs ! (2 * j + 1) = (cs ! j, pre @ [1])"
proof (induction cs arbitrary: j)
  case Nil
  then show ?case by simp
next
  case (Cons c cs)
  show ?case
  proof (cases j)
    case 0
    then show ?thesis by (simp add: round_queries_def)
  next
    case (Suc j')
    with Cons.prems have "j' < length cs" by simp
    from Cons.IH [OF this] show ?thesis
      using Suc by (simp add: round_queries_def)
  qed
qed

section \<open>The claims\<close>



text \<open>
  C2. Two exponent vectors that agree on the bits \<open>0 .. i\<close>, the same challenge, a device
  whose calls do not raise: the first \<open>n = (i + 1) + popcount(d[0..i])\<close> samples drawn,
  which are those up to and including the conditional sub-step of step \<open>i\<close>, are the same
  in both calls, and their sum is the delay accumulated by then (what the call on the
  common prefix returns).
\<close>

theorem samples_agree_on_prefix:
  assumes "p dev \<noteq> 0" and "0 \<le> sigma dev"
    and "i < length d1" and "i < length d2"
    and "take (Suc i) d1 = take (Suc i) d2"
  shows "let n = Suc i + popcount (take (Suc i) d1) in
           n \<le> length (samples v R dev m d1) \<and> n \<le> length (samples v R dev m d2)
         \<and> take n (samples v R dev m d1) = take n (samples v R dev m d2)
         \<and> (\<exists>g'. elapsed v R dev m (take (Suc i) d1) g0
                    = Inr (sum_list (take n (samples v R dev m d1)), g'))"
proof -
  define pre where "pre = samples v R dev m (take (Suc i) d1)"
  define n where "n = Suc i + popcount (take (Suc i) d1)"
  have len: "length pre = n"
    using elapsed_samples(2) [OF assms(1,2), of v R m "take (Suc i) d1"] assms(3)
    by (simp add: pre_def n_def)
  obtain rest1 where s1: "samples v R dev m d1 = pre @ rest1"
    using samples_append [OF assms(1,2), of v R m "take (Suc i) d1" "drop (Suc i) d1"]
    by (auto simp: pre_def)
  obtain rest2 where s2: "samples v R dev m d2 = pre @ rest2"
    using samples_append [OF assms(1,2), of v R m "take (Suc i) d2" "drop (Suc i) d2"] assms(5)
    by (auto simp: pre_def)
  obtain g' where "elapsed v R dev m (take (Suc i) d1) g0 = Inr (sum_list pre, g')"
    using elapsed_samples(1) [OF assms(1,2), of v R m "take (Suc i) d1" g0]
    by (auto simp: pre_def)
  then have "n \<le> length (samples v R dev m d1) \<and> n \<le> length (samples v R dev m d2)
         \<and> take n (samples v R dev m d1) = take n (samples v R dev m d2)
         \<and> (\<exists>g'. elapsed v R dev m (take (Suc i) d1) g0
                    = Inr (sum_list (take n (samples v R dev m d1)), g'))"
    using len s1 s2 by simp
  then show ?thesis
    unfolding Let_def n_def .
qed

theorem samples_agree_on_prefix_witness:
  "p example_device \<noteq> 0 \<and> 0 \<le> sigma example_device
   \<and> 1 < length [1, 0, 1 :: int] \<and> 1 < length [1, 0, 0, 1 :: int]
   \<and> take (Suc 1) [1, 0, 1 :: int] = take (Suc 1) [1, 0, 0, 1]
   \<and> (let n = Suc 1 + popcount (take (Suc 1) [1, 0, 1]) in
           n \<le> length (samples DoubleAndAdd lcg example_device 5 [1, 0, 1])
         \<and> n \<le> length (samples DoubleAndAdd lcg example_device 5 [1, 0, 0, 1])
         \<and> take n (samples DoubleAndAdd lcg example_device 5 [1, 0, 1])
             = take n (samples DoubleAndAdd lcg example_device 5 [1, 0, 0, 1])
         \<and> (\<exists>g'. elapsed DoubleAndAdd lcg example_device 5 (take (Suc 1) [1, 0, 1]) (0::nat)
                    = Inr (sum_list (take n (samples DoubleAndAdd lcg example_device 5 [1, 0, 1])), g')))"
proof -
  have h1: "p example_device \<noteq> 0" and h2: "0 \<le> sigma example_device"
    by (simp_all add: example_device_def)
  have h3: "1 < length [1, 0, 1 :: int]" and h4: "1 < length [1, 0, 0, 1 :: int]"
    and h5: "take (Suc 1) [1, 0, 1 :: int] = take (Suc 1) [1, 0, 0, 1]"
    by simp_all
  note c = samples_agree_on_prefix [OF h1 h2 h3 h4 h5, of DoubleAndAdd lcg 5 "0::nat"]
  show ?thesis by (intro conjI h1 h2 h3 h4 h5 c)
qed

text \<open>
  C5, as stated, fails: with \<open>mu = -1\<close> and \<open>sigma = 0\<close> the call on the one-bit exponent
  \<open>[1]\<close> draws two samples, each \<open>-1\<close>, and returns \<open>-2\<close>.
\<close>

theorem elapsed_negative_counterexample:
  "elapsed DoubleAndAdd lcg \<lparr>p = 61, keylen = 8, mu = - 1, sigma = 0, group_op = DoubleAndAdd\<rparr>
     1 [1] (0::nat) = Inr (- 2, 2)
   \<and> (- 2 :: real) < 0"
  by code_simp

text \<open>
  C5, amended. The value returned is the sum of the samples drawn and nothing clamps it:
  on a device whose calls do not raise, it is non-negative whenever every sample drawn in
  the call is non-negative.
\<close>

theorem elapsed_nonneg:
  assumes "p dev \<noteq> 0" and "0 \<le> sigma dev"
    and "\<forall>x \<in> set (samples v R dev m d). 0 \<le> x"
  shows "\<exists>t g'. elapsed v R dev m d g0 = Inr (t, g') \<and> 0 \<le> t"
proof -
  obtain g' where "elapsed v R dev m d g0 = Inr (sum_list (samples v R dev m d), g')"
    using elapsed_samples(1) [OF assms(1,2), of v R m d g0] by blast
  moreover have "0 \<le> sum_list (samples v R dev m d)"
    using assms(3) by (simp add: sum_list_nonneg)
  ultimately show ?thesis by blast
qed

theorem elapsed_nonneg_witness:
  "p example_device \<noteq> 0 \<and> 0 \<le> sigma example_device
   \<and> samples DoubleAndAdd lcg example_device 5 [1, 0, 1] = [1100, 850, 1150, 900, 900]
   \<and> (\<exists>t g'. elapsed DoubleAndAdd lcg example_device 5 [1, 0, 1] (0::nat) = Inr (t, g') \<and> 0 \<le> t)"
proof -
  have h1: "p example_device \<noteq> 0" and h2: "0 \<le> sigma example_device"
    by (simp_all add: example_device_def)
  have h3: "\<forall>x \<in> set (samples DoubleAndAdd lcg example_device 5 [1, 0, 1]). 0 \<le> x"
    by (simp add: samples_example)
  note c = elapsed_nonneg [OF h1 h2 h3, of "0::nat"]
  show ?thesis by (intro conjI h1 h2 samples_example c)
qed

text \<open>
  C6. A \<^verbatim>\<open>sign\<close> call reseeds before its first draw, so its result (the timing and
  the generator state it leaves) is the same for every generator state at entry; this
  holds for the attacker's \<^verbatim>\<open>sign\<close>, the victim's, and both variants of the group
  operation.
\<close>

theorem sign_independent_of_entry_state:
  "AttackerDevice_sign R dev c d g1 = AttackerDevice_sign R dev c d g2
   \<and> VictimDevice_sign R victim c g1 = VictimDevice_sign R victim c g2
   \<and> elapsed v R dev c d g1 = elapsed v R dev c d g2"
  by (simp add: AttackerDevice_sign_def VictimDevice_sign_def call_group_op_def
      double_and_add_def square_and_mul_def elapsed_def split: variant.splits)

text \<open>
  C7. \<^verbatim>\<open>check\<close> on a device whose secret has \<open>keylen\<close> bits and a vector \<open>d\<close> of at least
  \<open>keylen\<close> bits: with \<open>f = matches / keylen\<close>, the verdict is \<open>LOW\<close> for \<open>f < 0.75\<close>,
  \<open>PARTIAL\<close> for \<open>0.75 \<le> f < 1\<close> (the boundary \<open>0.75\<close> included) and \<open>FULL\<close> for \<open>f = 1\<close>;
  \<open>f \<le> 1\<close> always, so the three cases are all there are.
\<close>

theorem check_classifies:
  assumes "0 < keylen dev" and "nat (keylen dev) \<le> length (secret dev)"
    and "nat (keylen dev) \<le> length d"
  shows "let f = real (matches (secret dev) d (nat (keylen dev))) / real_of_int (keylen dev) in
           f \<le> 1
         \<and> (f < 0.75 \<longrightarrow> check dev d = Inr LOW)
         \<and> (0.75 \<le> f \<and> f < 1 \<longrightarrow> check dev d = Inr PARTIAL)
         \<and> (f = 1 \<longrightarrow> check dev d = Inr FULL)"
proof -
  define f where "f = real (matches (secret dev) d (nat (keylen dev))) / real_of_int (keylen dev)"
  have "real (matches (secret dev) d (nat (keylen dev))) \<le> real (nat (keylen dev))"
    using matches_le [of "secret dev" d "nat (keylen dev)"] by simp
  also have "\<dots> = real_of_int (keylen dev)"
    using assms(1) by simp
  finally have le: "f \<le> 1"
    using assms(1) by (simp add: f_def)
  have c: "check dev d = (if f < 0.75 then Inr LOW else if f < 1 then Inr PARTIAL else Inr FULL)"
    using assms by (simp add: check_def f_def Let_def)
  have "f \<le> 1
         \<and> (f < 0.75 \<longrightarrow> check dev d = Inr LOW)
         \<and> (0.75 \<le> f \<and> f < 1 \<longrightarrow> check dev d = Inr PARTIAL)
         \<and> (f = 1 \<longrightarrow> check dev d = Inr FULL)"
    using le c by simp
  then show ?thesis
    unfolding Let_def f_def .
qed

theorem check_classifies_witness:
  "0 < keylen example_victim \<and> nat (keylen example_victim) \<le> length (secret example_victim)
   \<and> nat (keylen example_victim) \<le> length [1, 0, 1, 1, 0, 0, 0, 1 :: int]
   \<and> real (matches (secret example_victim) [1, 0, 1, 1, 0, 0, 0, 1] 8) / 8 = 0.75
   \<and> check example_victim [1, 0, 1, 1, 0, 0, 0, 1] = Inr PARTIAL"
proof -
  have h1: "0 < keylen example_victim"
    and h2: "nat (keylen example_victim) \<le> length (secret example_victim)"
    and h3: "nat (keylen example_victim) \<le> length [1, 0, 1, 1, 0, 0, 0, 1 :: int]"
    by (simp_all add: example_victim_def)
  have k: "keylen example_victim = 8" by (simp add: example_victim_def)
  have f: "real (matches (secret example_victim) [1, 0, 1, 1, 0, 0, 0, 1] 8) / 8 = 0.75"
    by (simp add: matches_example)
  have c: "check example_victim [1, 0, 1, 1, 0, 0, 0, 1] = Inr PARTIAL"
    using check_classifies [OF h1 h2 h3] f by (simp add: k Let_def)
  show ?thesis by (intro conjI h1 h2 h3 f c)
qed

text \<open>
  C8. \<^verbatim>\<open>VictimDevice.__init__\<close> with a supported key length and a seed numpy accepts:
  the construction succeeds, the secret has exactly \<open>keylen\<close> entries, all of them 0 or 1,
  the first of them 1, and a second construction with the same arguments, from any other
  generator state \<open>g1\<close>, gives the same device.
\<close>

theorem VictimDevice_init_secret:
  assumes "k \<in> {8, 16, 32, 64, 128}" and "0 \<le> seed" and "seed < 2 ^ 32"
  shows "\<exists>v g'. VictimDevice_init R k m s seed g0 = Inr (v, g')
           \<and> VictimDevice_init R k m s seed g1 = Inr (v, g')
           \<and> length (secret v) = nat k \<and> secret v ! 0 = 1 \<and> set (secret v) \<subseteq> {0, 1}"
proof -
  obtain q where q: "primes k = Some q"
    using assms(1) primes_dom [of k] by auto
  have k: "0 < k" using assms(1) by auto
  obtain bits g' where rb: "rand_bits R (nat (k - 1)) (rng_seed R (nat seed)) = (bits, g')"
    by (cases "rand_bits R (nat (k - 1)) (rng_seed R (nat seed))")
  define v where "v = \<lparr>p = q, keylen = k, mu = m, sigma = s, group_op = DoubleAndAdd,
                        secret = [1] @ bits\<rparr>"
  have init: "VictimDevice_init R k m s seed h = Inr (v, g')" for h
    using q rb assms(2,3) by (simp add: VictimDevice_init_def Device_init_def np_seed_def v_def)
  have "length bits = nat (k - 1)"
    using rand_bits_length [of R "nat (k - 1)" "rng_seed R (nat seed)"] rb by simp
  then have len: "length (secret v) = nat k"
    using k by (simp add: v_def)
  have "set bits \<subseteq> {0, 1}"
    using rand_bits_set [of R "nat (k - 1)" "rng_seed R (nat seed)"] rb by simp
  then have bits: "set (secret v) \<subseteq> {0, 1}"
    by (simp add: v_def)
  have "secret v ! 0 = 1" by (simp add: v_def)
  with init [of g0] init [of g1] len bits show ?thesis by blast
qed

theorem VictimDevice_init_secret_witness:
  "(8::int) \<in> {8, 16, 32, 64, 128} \<and> (0::int) \<le> 12345 \<and> (12345::int) < 2 ^ 32
   \<and> (\<exists>v g'. VictimDevice_init lcg 8 1000 50 12345 (0::nat) = Inr (v, g')
           \<and> VictimDevice_init lcg 8 1000 50 12345 7 = Inr (v, g')
           \<and> length (secret v) = nat 8 \<and> secret v ! 0 = 1 \<and> set (secret v) \<subseteq> {0, 1})"
proof -
  have h1: "(8::int) \<in> {8, 16, 32, 64, 128}" and h2: "(0::int) \<le> 12345"
    and h3: "(12345::int) < 2 ^ 32"
    by simp_all
  note c = VictimDevice_init_secret [OF h1 h2 h3, of lcg 1000 50 0 7]
  show ?thesis by (intro conjI h1 h2 h3 c)
qed

text \<open>
  C9. A key length outside the table makes \<^verbatim>\<open>Device.__init__\<close> raise KeyError, and with
  it the victim's constructor (before it reseeds) and \<^verbatim>\<open>main\<close> (before its loop); each of
  the five supported key lengths constructs the device with the tabulated prime.
\<close>

theorem Device_init_keylen:
  "(k \<notin> {8, 16, 32, 64, 128} \<longrightarrow>
       Device_init k m s = Inl KeyError
     \<and> VictimDevice_init R k m s seed g = Inl KeyError
     \<and> main_body R randint N k m s w = Inl KeyError)
   \<and> Device_init 8 m s = Inr \<lparr>p = 61, keylen = 8, mu = m, sigma = s, group_op = DoubleAndAdd\<rparr>
   \<and> Device_init 16 m s = Inr \<lparr>p = 53759, keylen = 16, mu = m, sigma = s, group_op = DoubleAndAdd\<rparr>
   \<and> Device_init 32 m s
       = Inr \<lparr>p = 2675797811, keylen = 32, mu = m, sigma = s, group_op = DoubleAndAdd\<rparr>
   \<and> Device_init 64 m s
       = Inr \<lparr>p = 8642890157798231327, keylen = 64, mu = m, sigma = s, group_op = DoubleAndAdd\<rparr>
   \<and> Device_init 128 m s
       = Inr \<lparr>p = 249018405283997733407297959207515566297, keylen = 128, mu = m, sigma = s,
              group_op = DoubleAndAdd\<rparr>"
proof -
  have "Device_init k m s = Inl KeyError" if "k \<notin> {8, 16, 32, 64, 128}"
    using that primes_dom [of k] by (simp add: Device_init_def split: option.splits)
  then have "k \<notin> {8, 16, 32, 64, 128} \<longrightarrow>
       Device_init k m s = Inl KeyError
     \<and> VictimDevice_init R k m s seed g = Inl KeyError
     \<and> main_body R randint N k m s w = Inl KeyError"
    by (simp add: VictimDevice_init_def main_body_def split: prod.splits)
  moreover have "Device_init 8 m s = Inr \<lparr>p = 61, keylen = 8, mu = m, sigma = s, group_op = DoubleAndAdd\<rparr>"
    by (simp add: Device_init_def primes_def)
  moreover have "Device_init 16 m s = Inr \<lparr>p = 53759, keylen = 16, mu = m, sigma = s, group_op = DoubleAndAdd\<rparr>"
    by (simp add: Device_init_def primes_def)
  moreover have "Device_init 32 m s
       = Inr \<lparr>p = 2675797811, keylen = 32, mu = m, sigma = s, group_op = DoubleAndAdd\<rparr>"
    by (simp add: Device_init_def primes_def)
  moreover have "Device_init 64 m s
       = Inr \<lparr>p = 8642890157798231327, keylen = 64, mu = m, sigma = s, group_op = DoubleAndAdd\<rparr>"
    by (simp add: Device_init_def primes_def)
  moreover have "Device_init 128 m s
       = Inr \<lparr>p = 249018405283997733407297959207515566297, keylen = 128, mu = m, sigma = s,
              group_op = DoubleAndAdd\<rparr>"
    by (simp add: Device_init_def primes_def)
  ultimately show ?thesis by (intro conjI)
qed

theorem Device_init_keylen_witness:
  "(7::int) \<notin> {8, 16, 32, 64, 128}
   \<and> Device_init 7 1000 50 = Inl KeyError
   \<and> VictimDevice_init lcg 7 1000 50 12345 (0::nat) = Inl KeyError
   \<and> main_body lcg lcg_randint 4000 7 1000 50 \<lparr>np = 0, py = 0, queries = []\<rparr> = Inl KeyError"
  using Device_init_keylen [of 7 1000 50 lcg 12345 0 lcg_randint 4000 "\<lparr>np = 0, py = 0, queries = []\<rparr>"]
  by simp

text \<open>
  C3, as stated, fails: in the round for bit 0 of an 8-bit device, entered as \<^verbatim>\<open>main\<close>
  enters it with \<^verbatim>\<open>recovered = []\<close>, every query carries a vector of one entry, \<open>[0]\<close>
  or \<open>[1]\<close>, not of \<open>keylen = 8\<close> entries.
\<close>

theorem round_i_queries_counterexample:
  "round_i lcg lcg_randint example_victim example_device 3 8 0 ([], example_world)
     = Inr ([0], \<lparr>np = 12, py = 13,
                  queries = [(1, [0]), (1, [1]), (4, [0]), (4, [1]), (3, [0]), (3, [1])]\<rparr>)
   \<and> length [0 :: int] \<noteq> nat (keylen example_device)"
  by code_simp

text \<open>
  C3, amended. On valid devices and with at least one trial per round the loop returns, and
  during the round for bit \<open>i\<close> the working vector has \<open>i + 1\<close> entries, not \<open>keylen\<close>:
  the log of the run splits into one block of \<open>2 * N\<close> queries per round, and in the block
  of round \<open>i\<close> the two queries of trial \<open>j\<close> carry the same challenge and, first, the bits
  finalized so far (the first \<open>i\<close> entries of the result) followed by 0, then the same
  bits followed by 1. No position beyond \<open>i\<close> exists in either query.
\<close>

theorem main_loop_hypothesis_vectors:
  assumes "p victim \<noteq> 0" and "0 \<le> sigma victim"
    and "p attacker \<noteq> 0" and "0 \<le> sigma attacker" and "0 < N"
  shows "\<exists>rec w' qss. main_loop R randint victim attacker N kl [0..<n] ([], w) = Inr (rec, w')
           \<and> length rec = n \<and> set rec \<subseteq> {0, 1}
           \<and> length qss = n
           \<and> queries w' = queries w @ concat qss
           \<and> (\<forall>i<n. length (qss ! i) = 2 * N
                  \<and> (\<forall>j<N. \<exists>c. qss ! i ! (2 * j) = (c, take i rec @ [0])
                               \<and> qss ! i ! (2 * j + 1) = (c, take i rec @ [1])))"
proof -
  from main_loop_queries [OF assms, of R randint kl n w]
  obtain rec w' qss where
    run: "main_loop R randint victim attacker N kl [0..<n] ([], w) = Inr (rec, w')"
    and len: "length rec = n" and bits: "set rec \<subseteq> {0, 1}" and lq: "length qss = n"
    and q: "queries w' = queries w @ concat qss"
    and blocks: "\<forall>i<n. \<exists>cs. length cs = N \<and> qss ! i = round_queries (take i rec) cs"
    by blast
  have "\<forall>i<n. length (qss ! i) = 2 * N
          \<and> (\<forall>j<N. \<exists>c. qss ! i ! (2 * j) = (c, take i rec @ [0])
                       \<and> qss ! i ! (2 * j + 1) = (c, take i rec @ [1]))"
  proof (intro allI impI conjI)
    fix i assume "i < n"
    with blocks obtain cs where cs: "length cs = N" "qss ! i = round_queries (take i rec) cs"
      by blast
    show "length (qss ! i) = 2 * N"
      using cs by (simp add: round_queries_length)
    fix j assume "j < N"
    then have "j < length cs" using cs(1) by simp
    from round_queries_nth [OF this, of "take i rec"]
    show "\<exists>c. qss ! i ! (2 * j) = (c, take i rec @ [0])
             \<and> qss ! i ! (2 * j + 1) = (c, take i rec @ [1])"
      using cs(2) by auto
  qed
  with run len bits lq q show ?thesis by blast
qed

theorem main_loop_hypothesis_vectors_witness:
  "p example_victim \<noteq> 0 \<and> 0 \<le> sigma example_victim
   \<and> p example_device \<noteq> 0 \<and> 0 \<le> sigma example_device \<and> (0::nat) < 2
   \<and> (\<exists>rec w' qss.
         main_loop lcg lcg_randint example_victim example_device 2 8 [0..<8] ([], example_world)
           = Inr (rec, w')
       \<and> length rec = 8 \<and> set rec \<subseteq> {0, 1}
       \<and> length qss = 8
       \<and> queries w' = queries example_world @ concat qss
       \<and> (\<forall>i<8. length (qss ! i) = 2 * 2
              \<and> (\<forall>j<2. \<exists>c. qss ! i ! (2 * j) = (c, take i rec @ [0])
                           \<and> qss ! i ! (2 * j + 1) = (c, take i rec @ [1]))))"
proof -
  have h: "(0::nat) < 2" by simp
  note c = main_loop_hypothesis_vectors [OF example_victim_valid example_device_valid h,
      of lcg lcg_randint 8 8 example_world]
  show ?thesis by (intro conjI example_victim_valid example_device_valid h c)
qed



text \<open>
  C10. On a device whose calls do not raise, \<^verbatim>\<open>AttackerDevice.sign(c, d)\<close> returns for a
  vector \<open>d\<close> of any length, draws exactly \<open>len(d) + popcount(d)\<close> samples (their sum is the
  timing returned), and is unchanged by any other value of the device's \<open>keylen\<close>; and in
  the recovery loop every one of the \<open>2 * N\<close> queries of the round for bit \<open>i\<close> carries a
  vector of length \<open>i + 1\<close>.
\<close>

theorem AttackerDevice_sign_any_length:
  assumes "p attacker \<noteq> 0" and "0 \<le> sigma attacker"
    and "p victim \<noteq> 0" and "0 \<le> sigma victim" and "0 < N"
  shows "(\<exists>g'. AttackerDevice_sign R attacker c d g
                 = Inr (sum_list (samples (group_op attacker) R attacker c d), g'))
       \<and> length (samples (group_op attacker) R attacker c d) = length d + popcount d
       \<and> AttackerDevice_sign R (attacker\<lparr>keylen := k\<rparr>) c d g = AttackerDevice_sign R attacker c d g
       \<and> (\<exists>rec w' qss.
             main_loop R randint victim attacker N kl [0..<n] ([], w) = Inr (rec, w')
           \<and> length qss = n
           \<and> queries w' = queries w @ concat qss
           \<and> (\<forall>i<n. length (qss ! i) = 2 * N \<and> (\<forall>q \<in> set (qss ! i). length (snd q) = Suc i)))"
proof -
  have 1: "\<exists>g'. AttackerDevice_sign R attacker c d g
                 = Inr (sum_list (samples (group_op attacker) R attacker c d), g')"
    using elapsed_samples(1) [OF assms(1,2), of "group_op attacker" R c d g]
    by (simp add: AttackerDevice_sign_def call_group_op_elapsed)
  have 2: "length (samples (group_op attacker) R attacker c d) = length d + popcount d"
    by (rule elapsed_samples(2) [OF assms(1,2)])
  have 3: "AttackerDevice_sign R (attacker\<lparr>keylen := k\<rparr>) c d g = AttackerDevice_sign R attacker c d g"
    by (simp add: AttackerDevice_sign_def call_group_op_elapsed elapsed_def group_op_loop_keylen
        np_seed_mod_numeral)
  from main_loop_queries [OF assms(3,4,1,2,5), of R randint kl n w]
  obtain rec w' qss where
    run: "main_loop R randint victim attacker N kl [0..<n] ([], w) = Inr (rec, w')"
    and len: "length rec = n" and lq: "length qss = n"
    and q: "queries w' = queries w @ concat qss"
    and blocks: "\<forall>i<n. \<exists>cs. length cs = N \<and> qss ! i = round_queries (take i rec) cs"
    by blast
  have "\<forall>i<n. length (qss ! i) = 2 * N \<and> (\<forall>q \<in> set (qss ! i). length (snd q) = Suc i)"
  proof (intro allI impI)
    fix i assume i: "i < n"
    with blocks obtain cs where cs: "length cs = N" "qss ! i = round_queries (take i rec) cs"
      by blast
    have "length (take i rec) = i" using i len by simp
    then show "length (qss ! i) = 2 * N \<and> (\<forall>q \<in> set (qss ! i). length (snd q) = Suc i)"
      using cs round_queries_vectors [of _ "take i rec" cs]
      by (simp add: round_queries_length)
  qed
  with run lq q have 4: "\<exists>rec w' qss.
             main_loop R randint victim attacker N kl [0..<n] ([], w) = Inr (rec, w')
           \<and> length qss = n
           \<and> queries w' = queries w @ concat qss
           \<and> (\<forall>i<n. length (qss ! i) = 2 * N \<and> (\<forall>q \<in> set (qss ! i). length (snd q) = Suc i))"
    by blast
  show ?thesis by (intro conjI 1 2 3 4)
qed

theorem AttackerDevice_sign_any_length_witness:
  "p example_device \<noteq> 0 \<and> 0 \<le> sigma example_device
   \<and> p example_victim \<noteq> 0 \<and> 0 \<le> sigma example_victim \<and> (0::nat) < 2
   \<and> samples DoubleAndAdd lcg example_device 5 [1, 0, 1] = [1100, 850, 1150, 900, 900]
   \<and> (\<exists>g'. AttackerDevice_sign lcg example_device 5 [1, 0, 1] (0::nat)
              = Inr (sum_list (samples (group_op example_device) lcg example_device 5 [1, 0, 1]), g'))
   \<and> length (samples (group_op example_device) lcg example_device 5 [1, 0, 1])
       = length [1, 0, 1 :: int] + popcount [1, 0, 1]"
proof -
  have h: "(0::nat) < 2" by simp
  note c = AttackerDevice_sign_any_length [OF example_device_valid example_victim_valid h,
      of lcg 5 "[1, 0, 1]" "0::nat" 64 lcg_randint 8 8 example_world]
  show ?thesis
    by (intro conjI example_device_valid example_victim_valid h samples_example
        c [THEN conjunct1] c [THEN conjunct2, THEN conjunct1])
qed

end
